theory Spec2Isabelle
  imports Main
begin

section \<open>The event handler library: data model\<close>

text \<open>
  The library (header \<^verbatim>\<open>event.h\<close>, release 1.3.1, with \<^verbatim>\<open>listener_src.cpp\<close> and
  \<^verbatim>\<open>event_handler_src.cpp\<close>) is embedded over an explicit store.

  \<^item> An \<^verbatim>\<open>EventBase*\<close> is the address of an event object. A \<^verbatim>\<open>Listener*\<close> is
    \<open>None\<close> for \<^verbatim>\<open>nullptr\<close> and \<open>Some a\<close> for the address \<open>a\<close>. The condition variable
    \<^verbatim>\<open>cv\<close> is a member of its listener, so the pointer \<^verbatim>\<open>&l->cv\<close> is the address of \<open>l\<close>.
  \<^item> An \<^verbatim>\<open>EventFunc\<close> is a function pointer; the body of a callback is application
    code, so a call is recorded as an effect and nothing more. The callback receives
    a \<^verbatim>\<open>const EventBase&\<close>.
  \<^item> What the code does to threads, condition variables, callbacks and the virtual
    \<^verbatim>\<open>reset()\<close> is appended to a trace of effects, in program order.
\<close>

type_synonym evptr = nat
type_synonym lptr = nat
type_synonym EventFunc = nat

datatype ListenerType = DYNAMIC_LISTENER | STATIC_LISTENER

datatype effect =
    Call EventFunc evptr
  | Reset evptr
  | NotifyOne lptr
  | Spawn lptr
  | Join lptr

datatype fault = NullDereference | DanglingPointer | InvalidIterator

text \<open>
  \<^verbatim>\<open>class EventBase\<close>: the member \<^verbatim>\<open>cv\<close> and the two pure virtual methods. The data of
  the concrete event class is \<open>payload\<close>; \<open>vtrigger\<close> and \<open>vreset\<close> are the overriders
  of \<^verbatim>\<open>trigger()\<close> and \<^verbatim>\<open>reset()\<close> that the object's class supplies.
\<close>

record 's EventBase =
  cv :: "lptr option"
  payload :: 's
  vtrigger :: "'s \<Rightarrow> bool"
  vreset :: "'s \<Rightarrow> 's"

text \<open>
  \<^verbatim>\<open>class Listener\<close>: \<^verbatim>\<open>std::map<EventBase*, std::vector<EventFunc>> event2func\<close> is an
  association list in iteration order (a \<^verbatim>\<open>std::map\<close> iterates in ascending key
  order), \<^verbatim>\<open>std::atomic_bool running\<close> a flag.
\<close>

record Listener =
  event2func :: "(evptr \<times> EventFunc list) list"
  running :: bool

text \<open>\<^verbatim>\<open>class EventHandler\<close>; its flag \<^verbatim>\<open>running\<close> is named \<open>handler_running\<close> here.\<close>

record EventHandler =
  listeners :: "lptr option list"
  listener_type :: ListenerType
  handler_running :: bool

text \<open>
  The store: the event objects (every address a callback table mentions holds an event,
  the table is filled from references), the listener objects that are alive, and the
  trace.
\<close>

record 's world =
  event_objs :: "evptr \<Rightarrow> 's EventBase"
  listener_objs :: "lptr \<rightharpoonup> Listener"
  trace :: "effect list"

section \<open>EventBase and Event\<close>

text \<open>\<^verbatim>\<open>void set_cv(std::condition_variable* _cv) noexcept {this->cv = _cv;}\<close>\<close>

definition set_cv :: "lptr option \<Rightarrow> 's EventBase \<Rightarrow> 's EventBase" where
  "set_cv c ev = ev\<lparr>cv := c\<rparr>"

text \<open>\<^verbatim>\<open>EventBase(void) noexcept {this->cv = nullptr;}\<close>, run on the storage at \<open>this\<close>.\<close>

definition EventBase_ctor :: "evptr \<Rightarrow> 's world \<Rightarrow> 's world" where
  "EventBase_ctor this w =
     w\<lparr>event_objs := (event_objs w)(this := set_cv None (event_objs w this))\<rparr>"

text \<open>
  \<^verbatim>\<open>void internal(void) noexcept { if(this->cv != nullptr) this->cv->notify_one(); }\<close>
\<close>

definition internal :: "evptr \<Rightarrow> 's world \<Rightarrow> 's world" where
  "internal this w =
     (case cv (event_objs w this) of
        None \<Rightarrow> w
      | Some l \<Rightarrow> w\<lparr>trace := trace w @ [NotifyOne l]\<rparr>)"

text \<open>The virtual calls \<^verbatim>\<open>e->trigger()\<close> and \<^verbatim>\<open>e->reset()\<close> on an event object.\<close>

definition trigger :: "'s EventBase \<Rightarrow> bool" where
  "trigger ev = vtrigger ev (payload ev)"

definition reset :: "'s EventBase \<Rightarrow> 's EventBase" where
  "reset ev = ev\<lparr>payload := vreset ev (payload ev)\<rparr>"

text \<open>
  \<^verbatim>\<open>template<typename T> class Event : public EventBase\<close>. The state of one event class
  \<open>T\<close>: its static \<^verbatim>\<open>std::list<void*> instances\<close> and, for each object of the class that
  is alive, its member \<^verbatim>\<open>instance_iter\<close>. An iterator of a \<^verbatim>\<open>std::list\<close> denotes a node
  and stays valid while other nodes come and go, so the list holds pairs of a node and
  the address stored in it, and \<open>node_count\<close> numbers the nodes allocated so far.
\<close>

type_synonym node = nat

record Event_class =
  instances :: "(node \<times> evptr) list"
  node_count :: nat
  instance_iter :: "evptr \<rightharpoonup> node"

definition Event_class_init :: Event_class where
  "Event_class_init = \<lparr>instances = [], node_count = 0, instance_iter = Map.empty\<rparr>"

text \<open>\<^verbatim>\<open>static const std::list<void*>& get_instances(void) noexcept {return instances;}\<close>\<close>

definition get_instances :: "Event_class \<Rightarrow> evptr list" where
  "get_instances c = map snd (instances c)"

text \<open>
  \<^verbatim>\<open>Event(void) { instances.push_back(this); this->instance_iter = instances.end();
  --this->instance_iter; }\<close>
\<close>

definition Event_ctor :: "evptr \<Rightarrow> Event_class \<Rightarrow> Event_class" where
  "Event_ctor this c =
     (let pushed = instances c @ [(node_count c, this)]
      in c\<lparr>instances := pushed,
           node_count := Suc (node_count c),
           instance_iter := (instance_iter c)(this \<mapsto> fst (last pushed))\<rparr>)"

text \<open>
  \<^verbatim>\<open>virtual ~Event(void) noexcept { instances.erase(this->instance_iter); }\<close>: erasing
  through an iterator whose node is no longer in the list is undefined.
\<close>

definition Event_dtor :: "evptr \<Rightarrow> Event_class \<Rightarrow> fault + Event_class" where
  "Event_dtor this c =
     (case instance_iter c this of
        None \<Rightarrow> Inl DanglingPointer
      | Some it \<Rightarrow>
          if it \<in> set (map fst (instances c))
          then Inr (c\<lparr>instances := filter (\<lambda>p. fst p \<noteq> it) (instances c),
                      instance_iter := (instance_iter c)(this := None)\<rparr>)
          else Inl InvalidIterator)"

text \<open>
  The copy constructor of \<^verbatim>\<open>Event<T>\<close>. The class declares none and deletes none
  (\<^verbatim>\<open>Listener\<close> and \<^verbatim>\<open>EventHandler\<close> delete theirs), so the language supplies the
  member-wise one: \<^verbatim>\<open>cv\<close> and \<^verbatim>\<open>instance_iter\<close> are copied from \<open>other\<close>, and the
  static list is not touched.
\<close>

definition Event_copy_ctor :: "evptr \<Rightarrow> evptr \<Rightarrow> Event_class \<Rightarrow> fault + Event_class" where
  "Event_copy_ctor this other c =
     (case instance_iter c other of
        None \<Rightarrow> Inl DanglingPointer
      | Some it \<Rightarrow> Inr (c\<lparr>instance_iter := (instance_iter c)(this \<mapsto> it)\<rparr>))"

text \<open>
  The states of an event class whose objects are only ever made by \<^verbatim>\<open>Event(void)\<close>, on
  storage that holds no live object of the class, and ended by the destructor.
\<close>

inductive default_made :: "Event_class \<Rightarrow> bool" where
  initial: "default_made Event_class_init"
| constructed: "default_made c \<Longrightarrow> instance_iter c this = None \<Longrightarrow> default_made (Event_ctor this c)"
| destroyed: "default_made c \<Longrightarrow> Event_dtor this c = Inr c' \<Longrightarrow> default_made c'"

section \<open>Listener\<close>

text \<open>\<^verbatim>\<open>Listener::Listener(void)\<close>: an empty table, \<^verbatim>\<open>running = false\<close>.\<close>

definition Listener_ctor :: Listener where
  "Listener_ctor = \<lparr>event2func = [], running = False\<rparr>"

text \<open>
  \<^verbatim>\<open>this->event2func[&event].push_back(func)\<close>. \<^verbatim>\<open>operator[]\<close> finds the entry of the key
  and, when there is none, inserts an empty vector at the key's place in the order;
  \<^verbatim>\<open>push_back\<close> then appends to the vector of that entry.
\<close>

definition subscript :: "evptr \<Rightarrow> (evptr \<times> EventFunc list) list \<Rightarrow> (evptr \<times> EventFunc list) list" where
  "subscript e t = (if map_of t e = None then insort_key fst (e, []) t else t)"

definition push_back_at :: "evptr \<Rightarrow> EventFunc \<Rightarrow> (evptr \<times> EventFunc list) list \<Rightarrow> (evptr \<times> EventFunc list) list" where
  "push_back_at e f t = map (\<lambda>(k, fs). if k = e then (k, fs @ [f]) else (k, fs)) t"

text \<open>
  \<^verbatim>\<open>void Listener::register_event(EventBase& event, EventFunc func)\<close>, called on the
  listener at \<open>this\<close>.
\<close>

definition register_event :: "lptr \<Rightarrow> evptr \<Rightarrow> EventFunc \<Rightarrow> 's world \<Rightarrow> fault + 's world" where
  "register_event this event func w =
     (case listener_objs w this of
        None \<Rightarrow> Inl DanglingPointer
      | Some L \<Rightarrow>
          Inr (w\<lparr>listener_objs := (listener_objs w)
                   (this \<mapsto> L\<lparr>event2func := push_back_at event func (subscript event (event2func L))\<rparr>),
                 event_objs := (event_objs w)(event := set_cv (Some this) (event_objs w event))\<rparr>))"

text \<open>The callbacks registered for an event: the vector of its entry, empty without one.\<close>

definition callbacks :: "Listener \<Rightarrow> evptr \<Rightarrow> EventFunc list" where
  "callbacks L e = (case map_of (event2func L) e of None \<Rightarrow> [] | Some fs \<Rightarrow> fs)"

text \<open>A caller that registers one event with several listeners, one call after the other.\<close>

fun register_with :: "(lptr \<times> EventFunc) list \<Rightarrow> evptr \<Rightarrow> 's world \<Rightarrow> fault + 's world" where
  "register_with [] e w = Inr w"
| "register_with ((l, f) # rs) e w =
     (case register_event l e f w of Inl x \<Rightarrow> Inl x | Inr w' \<Rightarrow> register_with rs e w')"

text \<open>
  \<^verbatim>\<open>void Listener::start(void)\<close>: \<^verbatim>\<open>if(!running) { running = true; listener_thread =
  std::thread(listen, this); }\<close>
\<close>

definition Listener_start :: "lptr \<Rightarrow> 's world \<Rightarrow> fault + 's world" where
  "Listener_start this w =
     (case listener_objs w this of
        None \<Rightarrow> Inl DanglingPointer
      | Some L \<Rightarrow>
          if \<not> running L
          then Inr (w\<lparr>listener_objs := (listener_objs w)(this \<mapsto> L\<lparr>running := True\<rparr>),
                      trace := trace w @ [Spawn this]\<rparr>)
          else Inr w)"

text \<open>
  \<^verbatim>\<open>void Listener::stop(void)\<close>: \<^verbatim>\<open>if(running) { running = false; cv.notify_one();
  listener_thread.join(); }\<close>
\<close>

definition Listener_stop :: "lptr \<Rightarrow> 's world \<Rightarrow> fault + 's world" where
  "Listener_stop this w =
     (case listener_objs w this of
        None \<Rightarrow> Inl DanglingPointer
      | Some L \<Rightarrow>
          if running L
          then Inr (w\<lparr>listener_objs := (listener_objs w)(this \<mapsto> L\<lparr>running := False\<rparr>),
                      trace := trace w @ [NotifyOne this, Join this]\<rparr>)
          else Inr w)"


text \<open>
  \<^verbatim>\<open>bool Listener::event_has_happened(EventBase** ret_event, std::vector<EventFunc>**
  ret_functions)\<close>: the loop over the table returns at the first entry whose event
  triggers. \<open>Some (event, functions)\<close> is the result \<^verbatim>\<open>true\<close> with the two out-parameters,
  \<open>None\<close> is \<^verbatim>\<open>false\<close> with both set to \<^verbatim>\<open>nullptr\<close>.
\<close>

fun event_has_happened ::
  "(evptr \<Rightarrow> 's EventBase) \<Rightarrow> (evptr \<times> EventFunc list) list \<Rightarrow> (evptr \<times> EventFunc list) option" where
  "event_has_happened evs [] = None"
| "event_has_happened evs ((e, fs) # rest) =
     (if trigger (evs e) then Some (e, fs) else event_has_happened evs rest)"

text \<open>
  \<^verbatim>\<open>for(size_t i=0; i < event_functions->size(); i++) event_functions->at(i)(*event);\<close>
\<close>

fun call_functions :: "evptr \<Rightarrow> EventFunc list \<Rightarrow> 's world \<Rightarrow> 's world" where
  "call_functions event [] w = w"
| "call_functions event (f # fs) w = call_functions event fs (w\<lparr>trace := trace w @ [Call f event]\<rparr>)"

text \<open>\<^verbatim>\<open>event->reset();\<close>\<close>

definition call_reset :: "evptr \<Rightarrow> 's world \<Rightarrow> 's world" where
  "call_reset event w =
     w\<lparr>event_objs := (event_objs w)(event := reset (event_objs w event)),
       trace := trace w @ [Reset event]\<rparr>"

text \<open>
  One pass through the body of the loop of \<^verbatim>\<open>Listener::listen\<close>, from the test of
  \<^verbatim>\<open>l->running\<close> to the end of the body, on the store as it is when the predicate of
  \<^verbatim>\<open>cv.wait\<close> is evaluated; no other thread writes between that evaluation and the end
  of the pass. \<open>Leave\<close>: the flag is cleared and the loop ends. \<open>Wait\<close>: the predicate
  \<^verbatim>\<open>!running || event_has_happened(...)\<close> is false and the thread stays in \<^verbatim>\<open>cv.wait\<close>.
\<close>

datatype 's cycle = Leave | Wait | Dispatched "'s world" | Crashed fault

definition listen_cycle :: "lptr \<Rightarrow> 's world \<Rightarrow> 's cycle" where
  "listen_cycle l w =
     (case listener_objs w l of
        None \<Rightarrow> Crashed DanglingPointer
      | Some L \<Rightarrow>
          if \<not> running L then Leave
          else (case event_has_happened (event_objs w) (event2func L) of
                  None \<Rightarrow> Wait
                | Some (event, event_functions) \<Rightarrow>
                    Dispatched (call_reset event (call_functions event event_functions w))))"

text \<open>
  \<^verbatim>\<open>void Listener::listen(Listener* l)\<close> run alone: the loop may go on for ever (an event
  whose \<^verbatim>\<open>reset()\<close> leaves \<^verbatim>\<open>trigger()\<close> true), so it takes fuel.
\<close>

datatype 's listen_result = Returned "'s world" | Blocked "'s world" | OutOfFuel "'s world" | Failed fault

fun listen :: "nat \<Rightarrow> lptr \<Rightarrow> 's world \<Rightarrow> 's listen_result" where
  "listen 0 l w = OutOfFuel w"
| "listen (Suc n) l w =
     (case listen_cycle l w of
        Leave \<Rightarrow> Returned w
      | Wait \<Rightarrow> Blocked w
      | Dispatched w' \<Rightarrow> listen n l w'
      | Crashed x \<Rightarrow> Failed x)"

section \<open>EventHandler\<close>

text \<open>
  \<^verbatim>\<open>EventHandler::EventHandler(ListenerType lt)\<close> and the delegating
  \<^verbatim>\<open>EventHandler::EventHandler(void) : EventHandler(ListenerType::DYNAMIC_LISTENER) {}\<close>
\<close>

definition EventHandler_ctor :: "ListenerType \<Rightarrow> EventHandler" where
  "EventHandler_ctor lt = \<lparr>listeners = [], listener_type = lt, handler_running = False\<rparr>"


text \<open>\<^verbatim>\<open>for(Listener* l : this->listeners) l->start();\<close> and the same loop with \<^verbatim>\<open>stop\<close>.\<close>

fun start_all :: "lptr option list \<Rightarrow> 's world \<Rightarrow> fault + 's world" where
  "start_all [] w = Inr w"
| "start_all (None # ls) w = Inl NullDereference"
| "start_all (Some a # ls) w =
     (case Listener_start a w of Inl x \<Rightarrow> Inl x | Inr w' \<Rightarrow> start_all ls w')"

fun stop_all :: "lptr option list \<Rightarrow> 's world \<Rightarrow> fault + 's world" where
  "stop_all [] w = Inr w"
| "stop_all (None # ls) w = Inl NullDereference"
| "stop_all (Some a # ls) w =
     (case Listener_stop a w of Inl x \<Rightarrow> Inl x | Inr w' \<Rightarrow> stop_all ls w')"

definition EventHandler_start :: "EventHandler \<Rightarrow> 's world \<Rightarrow> fault + EventHandler \<times> 's world" where
  "EventHandler_start h w =
     (if \<not> handler_running h
      then (case start_all (listeners h) w of
              Inl x \<Rightarrow> Inl x
            | Inr w' \<Rightarrow> Inr (h\<lparr>handler_running := True\<rparr>, w'))
      else Inr (h, w))"

definition EventHandler_stop :: "EventHandler \<Rightarrow> 's world \<Rightarrow> fault + EventHandler \<times> 's world" where
  "EventHandler_stop h w =
     (if handler_running h
      then (case stop_all (listeners h) w of
              Inl x \<Rightarrow> Inl x
            | Inr w' \<Rightarrow> Inr (h\<lparr>handler_running := False\<rparr>, w'))
      else Inr (h, w))"





text \<open>
  \<^verbatim>\<open>void EventHandler::add_listener(Listener* l) { if(!this->running)
  this->listeners.push_back(l); }\<close>
\<close>

definition EventHandler_add_listener :: "lptr option \<Rightarrow> EventHandler \<Rightarrow> EventHandler" where
  "EventHandler_add_listener l h =
     (if \<not> handler_running h then h\<lparr>listeners := listeners h @ [l]\<rparr> else h)"




section \<open>Invariant of the instance list, and concrete stores\<close>

text \<open>
  What holds of an event class as long as its objects are only made by \<^verbatim>\<open>Event(void)\<close>:
  nodes are distinct, a node holds the address of the live object whose
  \<^verbatim>\<open>instance_iter\<close> denotes it, and every node was allocated.
\<close>

definition registry_inv :: "Event_class \<Rightarrow> bool" where
  "registry_inv c \<longleftrightarrow>
     distinct (map fst (instances c))
     \<and> (\<forall>n a. (n, a) \<in> set (instances c) \<longleftrightarrow> instance_iter c a = Some n)
     \<and> (\<forall>p\<in>set (instances c). fst p < node_count c)"

text \<open>
  An event in the manner of the example \<^verbatim>\<open>KeyEvent\<close>: the payload is the length of its
  queue, \<^verbatim>\<open>trigger()\<close> is \<^verbatim>\<open>event_queue.size() > 0\<close> and \<^verbatim>\<open>reset()\<close> pops one element.
\<close>

definition key_event :: "nat \<Rightarrow> nat EventBase" where
  "key_event n = \<lparr>cv = None, payload = n, vtrigger = (\<lambda>q. 0 < q), vreset = (\<lambda>q. q - 1)\<rparr>"

text \<open>
  A store with a running listener at address 1 whose table has the events 5, 7 and 8
  (queues of length 0, 1 and 2) and an idle listener at address 2 with an empty table.
\<close>

definition demo_listener :: Listener where
  "demo_listener = \<lparr>event2func = [(5, [20]), (7, [21, 22]), (8, [23])], running = True\<rparr>"

definition demo_world :: "nat world" where
  "demo_world =
     \<lparr>event_objs = (\<lambda>e. key_event (if e = 7 then 1 else if e = 8 then 2 else 0)),
      listener_objs = [1 \<mapsto> demo_listener, 2 \<mapsto> Listener_ctor],
      trace = []\<rparr>"

definition demo_handler :: "ListenerType \<Rightarrow> EventHandler" where
  "demo_handler lt = \<lparr>listeners = [Some 1, Some 2], listener_type = lt, handler_running = True\<rparr>"

section \<open>Registration\<close>

lemma map_of_insort_key_fresh:
  "map_of t e = None \<Longrightarrow> map_of (insort_key fst (e, v) t) = (map_of t)(e \<mapsto> v)"
  by (induction t) (auto simp: fun_eq_iff)

lemma map_of_push_back_at:
  "map_of (push_back_at e f t) k =
     (if k = e then map_option (\<lambda>fs. fs @ [f]) (map_of t e) else map_of t k)"
  by (induction t) (auto simp: push_back_at_def)

lemma map_of_subscript:
  "map_of (subscript e t) k = (if k = e \<and> map_of t e = None then Some [] else map_of t k)"
  by (simp add: subscript_def map_of_insort_key_fresh)

lemma map_of_register:
  "map_of (push_back_at e f (subscript e t)) k =
     (if k = e then Some ((case map_of t e of None \<Rightarrow> [] | Some fs \<Rightarrow> fs) @ [f]) else map_of t k)"
  by (simp add: map_of_push_back_at map_of_subscript split: option.splits)

text \<open>The table stays in ascending key order, the iteration order of \<^verbatim>\<open>std::map\<close>.\<close>

lemma sorted_keys_register:
  assumes "sorted (map fst t)"
  shows "sorted (map fst (push_back_at e f (subscript e t)))"
proof -
  have keys: "map fst (push_back_at e f u) = map fst u" for u
    by (induction u) (auto simp: push_back_at_def)
  from assms have "sorted (map fst (subscript e t))"
    by (simp add: subscript_def sorted_insort_key)
  then show ?thesis by (simp add: keys)
qed

lemma register_event_live:
  "listener_objs w l = Some L \<Longrightarrow>
   register_event l e f w =
     Inr (w\<lparr>listener_objs := (listener_objs w)
              (l \<mapsto> L\<lparr>event2func := push_back_at e f (subscript e (event2func L))\<rparr>),
            event_objs := (event_objs w)(e := set_cv (Some l) (event_objs w e))\<rparr>)"
  by (simp add: register_event_def)

lemma register_event_effect:
  assumes "listener_objs w l = Some L"
  shows "\<exists>w'. register_event l e f w = Inr w'
           \<and> cv (event_objs w' e) = Some l
           \<and> trace w' = trace w
           \<and> (\<forall>a. (listener_objs w' a = None) = (listener_objs w a = None))"
  using assms by (simp add: register_event_def set_cv_def)

lemma register_with_snoc:
  "register_with (rs @ [(l, f)]) e w =
     (case register_with rs e w of Inl x \<Rightarrow> Inl x | Inr w' \<Rightarrow> register_event l e f w')"
  by (induction rs arbitrary: w) (auto split: sum.splits)

lemma register_with_live:
  "\<forall>p\<in>set regs. listener_objs w (fst p) \<noteq> None \<Longrightarrow>
     \<exists>w'. register_with regs e w = Inr w'
       \<and> trace w' = trace w
       \<and> (\<forall>a. (listener_objs w' a = None) = (listener_objs w a = None))"
proof (induction regs arbitrary: w)
  case Nil
  then show ?case by simp
next
  case (Cons p regs)
  obtain l f where p: "p = (l, f)" by (cases p)
  with Cons.prems obtain L where "listener_objs w l = Some L" by auto
  from register_event_effect [OF this] obtain w1 where
    r1: "register_event l e f w = Inr w1" and t1: "trace w1 = trace w"
    and s1: "\<forall>a. (listener_objs w1 a = None) = (listener_objs w a = None)"
    by blast
  from s1 Cons.prems have "\<forall>q\<in>set regs. listener_objs w1 (fst q) \<noteq> None" by simp
  from Cons.IH [OF this] obtain w' where
    "register_with regs e w1 = Inr w'" "trace w' = trace w1"
    "\<forall>a. (listener_objs w' a = None) = (listener_objs w1 a = None)"
    by blast
  with p r1 t1 s1 show ?case by simp
qed

text \<open>
  Claim C4. \<^verbatim>\<open>register_event\<close> accumulates: after registering the same event twice with
  one listener, with the callbacks \<open>f1\<close> and then \<open>f2\<close>, the callback sequence of the
  event is the one it had before followed by \<open>f1\<close>, \<open>f2\<close> in that order; the entry of every
  other event and every other listener is as it was. Both calls succeed on a listener that
  is alive.
\<close>

theorem C4_register_event_accumulates:
  assumes live: "listener_objs w l = Some L"
  shows "\<exists>w1 w2 L2. register_event l e f1 w = Inr w1 \<and> register_event l e f2 w1 = Inr w2
           \<and> listener_objs w2 l = Some L2
           \<and> callbacks L2 e = callbacks L e @ [f1, f2]
           \<and> (\<forall>k. k \<noteq> e \<longrightarrow> map_of (event2func L2) k = map_of (event2func L) k)
           \<and> (\<forall>l'. l' \<noteq> l \<longrightarrow> listener_objs w2 l' = listener_objs w l')"
  using live by (simp add: register_event_live callbacks_def map_of_register split: option.splits)

theorem C4_register_event_accumulates_witness:
  "listener_objs demo_world 1 = Some demo_listener
   \<and> callbacks demo_listener 7 = [21, 22]
   \<and> (\<exists>w1 w2 L2. register_event 1 7 30 demo_world = Inr w1 \<and> register_event 1 7 31 w1 = Inr w2
         \<and> listener_objs w2 1 = Some L2
         \<and> callbacks L2 7 = [21, 22, 30, 31]
         \<and> map_of (event2func L2) 8 = Some [23])"
proof -
  have live: "listener_objs demo_world 1 = Some demo_listener"
    by (simp add: demo_world_def)
  have old: "callbacks demo_listener 7 = [21, 22]" "map_of (event2func demo_listener) 8 = Some [23]"
    by (simp_all add: callbacks_def demo_listener_def)
  from C4_register_event_accumulates [OF live, of 7 30 31] old live
  show ?thesis by auto
qed

text \<open>
  Claim C3. An event holds one pointer to a condition variable. Each \<^verbatim>\<open>register_event\<close>
  sets it to the condition variable of the registering listener, so after the event has
  been registered with several listeners in turn, \<^verbatim>\<open>internal()\<close> notifies the condition
  variable of the listener that registered it last, and only that one.
\<close>

theorem C3_last_registration_wins:
  assumes "regs \<noteq> []" and "\<forall>p\<in>set regs. listener_objs w (fst p) \<noteq> None"
  shows "\<exists>w'. register_with regs e w = Inr w'
           \<and> cv (event_objs w' e) = Some (fst (last regs))
           \<and> internal e w' = w'\<lparr>trace := trace w' @ [NotifyOne (fst (last regs))]\<rparr>"
proof -
  obtain l f where lf: "last regs = (l, f)" by (cases "last regs")
  with assms(1) have regs: "regs = butlast regs @ [(l, f)]" by (metis append_butlast_last_id)
  from assms(2) have "\<forall>p\<in>set (butlast regs). listener_objs w (fst p) \<noteq> None"
    by (auto dest: in_set_butlastD)
  from register_with_live [OF this] obtain w1 where
    r1: "register_with (butlast regs) e w = Inr w1"
    and s1: "\<forall>a. (listener_objs w1 a = None) = (listener_objs w a = None)"
    by blast
  from assms lf have "listener_objs w l \<noteq> None" by (metis fst_conv last_in_set)
  with s1 have "listener_objs w1 l \<noteq> None" by simp
  then obtain L where "listener_objs w1 l = Some L" by blast
  from register_event_effect [OF this] obtain w' where
    r2: "register_event l e f w1 = Inr w'" and c: "cv (event_objs w' e) = Some l"
    by blast
  from r1 r2 have "register_with (butlast regs @ [(l, f)]) e w = Inr w'"
    by (simp add: register_with_snoc)
  with regs have "register_with regs e w = Inr w'" by simp
  with c lf show ?thesis by (simp add: internal_def)
qed

theorem C3_last_registration_wins_witness:
  "[(1, 40), (2, 41)] \<noteq> ([] :: (lptr \<times> EventFunc) list)
   \<and> listener_objs demo_world 1 \<noteq> None \<and> listener_objs demo_world 2 \<noteq> None
   \<and> (\<exists>w'. register_with [(1, 40), (2, 41)] 7 demo_world = Inr w'
         \<and> cv (event_objs w' 7) = Some 2
         \<and> internal 7 w' = w'\<lparr>trace := trace w' @ [NotifyOne 2]\<rparr>)"
proof -
  have ne: "[(1, 40), (2, 41)] \<noteq> ([] :: (lptr \<times> EventFunc) list)" by simp
  have live: "\<forall>p\<in>set [(1, 40), (2, 41 :: EventFunc)]. listener_objs demo_world (fst p) \<noteq> None"
    by (simp add: demo_world_def)
  from C3_last_registration_wins [OF ne live, of 7] live
  show ?thesis by simp
qed

section \<open>The listener: start, stop and the dispatch cycle\<close>

text \<open>
  Claim C7. \<^verbatim>\<open>Listener::start()\<close> on a listener that is running leaves the store as it
  is: no thread is spawned and the flag stays true. \<^verbatim>\<open>Listener::stop()\<close> on a listener
  that is not running leaves the store as it is: no notification and no join.
\<close>

theorem C7_start_stop_idempotent:
  assumes "listener_objs w l = Some L"
  shows "(running L \<longrightarrow> Listener_start l w = Inr w) \<and> (\<not> running L \<longrightarrow> Listener_stop l w = Inr w)"
  using assms by (simp add: Listener_start_def Listener_stop_def)

theorem C7_start_stop_idempotent_witness:
  "listener_objs demo_world 1 = Some demo_listener \<and> running demo_listener
   \<and> Listener_start 1 demo_world = Inr demo_world
   \<and> listener_objs demo_world 2 = Some Listener_ctor \<and> \<not> running Listener_ctor
   \<and> Listener_stop 2 demo_world = Inr demo_world"
proof -
  have l1: "listener_objs demo_world 1 = Some demo_listener"
    and l2: "listener_objs demo_world 2 = Some Listener_ctor"
    by (simp_all add: demo_world_def)
  have r1: "running demo_listener" and r2: "\<not> running Listener_ctor"
    by (simp_all add: demo_listener_def Listener_ctor_def)
  from C7_start_stop_idempotent [OF l1] C7_start_stop_idempotent [OF l2] l1 l2 r1 r2
  show ?thesis by simp
qed

lemma event_has_happened_first:
  "\<forall>p\<in>set pre. \<not> trigger (evs (fst p)) \<Longrightarrow> trigger (evs e) \<Longrightarrow>
     event_has_happened evs (pre @ (e, fs) # post) = Some (e, fs)"
  by (induction pre) auto

lemma event_has_happened_none:
  "\<forall>p\<in>set t. \<not> trigger (evs (fst p)) \<Longrightarrow> event_has_happened evs t = None"
  by (induction t) auto

lemma first_triggered_split:
  "\<exists>p\<in>set t. trigger (evs (fst p)) \<Longrightarrow>
     \<exists>pre e fs post. t = pre @ (e, fs) # post \<and> (\<forall>p\<in>set pre. \<not> trigger (evs (fst p)))
        \<and> trigger (evs e)"
proof (induction t)
  case Nil
  then show ?case by simp
next
  case (Cons a t)
  show ?case
  proof (cases "trigger (evs (fst a))")
    case True
    then have "a # t = [] @ (fst a, snd a) # t \<and> (\<forall>p\<in>set []. \<not> trigger (evs (fst p)))
        \<and> trigger (evs (fst a))"
      by simp
    then show ?thesis by blast
  next
    case False
    with Cons.prems have "\<exists>p\<in>set t. trigger (evs (fst p))" by auto
    from Cons.IH [OF this] obtain pre e fs post where
      "t = pre @ (e, fs) # post" "\<forall>p\<in>set pre. \<not> trigger (evs (fst p))" "trigger (evs e)"
      by blast
    with False have "a # t = (a # pre) @ (e, fs) # post
        \<and> (\<forall>p\<in>set (a # pre). \<not> trigger (evs (fst p))) \<and> trigger (evs e)"
      by simp
    then show ?thesis by blast
  qed
qed

lemma call_functions_eq:
  "call_functions e fs w = w\<lparr>trace := trace w @ map (\<lambda>f. Call f e) fs\<rparr>"
  by (induction fs arbitrary: w) auto

lemma listen_cycle_dispatch:
  assumes "listener_objs w l = Some L" and "running L"
    and "event2func L = pre @ (e, fs) # post"
    and "\<forall>p\<in>set pre. \<not> trigger (event_objs w (fst p))"
    and "trigger (event_objs w e)"
  shows "listen_cycle l w =
           Dispatched (w\<lparr>event_objs := (event_objs w)(e := reset (event_objs w e)),
                         trace := trace w @ map (\<lambda>f. Call f e) fs @ [Reset e]\<rparr>)"
  using assms
  by (simp add: listen_cycle_def event_has_happened_first call_functions_eq call_reset_def)

text \<open>While no registered event triggers, the worker stays in \<^verbatim>\<open>cv.wait\<close>.\<close>

lemma listen_cycle_wait:
  assumes "listener_objs w l = Some L" and "running L"
    and "\<forall>p\<in>set (event2func L). \<not> trigger (event_objs w (fst p))"
  shows "listen_cycle l w = Wait"
  using assms by (simp add: listen_cycle_def event_has_happened_none)

text \<open>
  Claim C1. Let the event \<open>e\<close> be registered with a running listener with the callbacks
  \<open>[f1, f2]\<close>, and let \<open>e\<close> be the event the scan finds (it triggers, and no entry before
  it in the table does). Then one pass of the worker loop calls \<open>f1\<close> on \<open>e\<close>, then \<open>f2\<close>
  on \<open>e\<close>, each once, and then \<^verbatim>\<open>reset()\<close> on \<open>e\<close> once, after both callbacks. If
  \<^verbatim>\<open>reset()\<close> keeps its contract (\<^verbatim>\<open>trigger()\<close> is false on the object it leaves), then
  \<^verbatim>\<open>trigger()\<close> of \<open>e\<close> is false right after the pass.
\<close>

theorem C1_dispatch_order_then_reset:
  assumes "listener_objs w l = Some L" and "running L"
    and "event2func L = pre @ (e, [f1, f2]) # post"
    and "\<forall>p\<in>set pre. \<not> trigger (event_objs w (fst p))"
    and "trigger (event_objs w e)"
  shows "\<exists>w'. listen_cycle l w = Dispatched w'
           \<and> trace w' = trace w @ [Call f1 e, Call f2 e, Reset e]
           \<and> event_objs w' e = reset (event_objs w e)
           \<and> (\<not> trigger (reset (event_objs w e)) \<longrightarrow> \<not> trigger (event_objs w' e))"
  using listen_cycle_dispatch [OF assms] by simp

theorem C1_dispatch_order_then_reset_witness:
  "listener_objs demo_world 1 = Some demo_listener \<and> running demo_listener
   \<and> event2func demo_listener = [(5, [20])] @ (7, [21, 22]) # [(8, [23])]
   \<and> \<not> trigger (event_objs demo_world 5) \<and> trigger (event_objs demo_world 7)
   \<and> \<not> trigger (reset (event_objs demo_world 7))
   \<and> (\<exists>w'. listen_cycle 1 demo_world = Dispatched w'
         \<and> trace w' = [Call 21 7, Call 22 7, Reset 7]
         \<and> \<not> trigger (event_objs w' 7))"
proof -
  have live: "listener_objs demo_world 1 = Some demo_listener"
    by (simp add: demo_world_def)
  have run: "running demo_listener"
    by (simp add: demo_listener_def)
  have tab: "event2func demo_listener = [(5, [20])] @ (7, [21, 22]) # [(8, [23])]"
    by (simp add: demo_listener_def)
  have quiet: "\<forall>p\<in>set [(5, [20::nat])]. \<not> trigger (event_objs demo_world (fst p))"
    by (simp add: demo_world_def key_event_def trigger_def)
  have trig: "trigger (event_objs demo_world 7)"
    by (simp add: demo_world_def key_event_def trigger_def)
  have contract: "\<not> trigger (reset (event_objs demo_world 7))"
    by (simp add: demo_world_def key_event_def trigger_def reset_def)
  have empty: "trace demo_world = []"
    by (simp add: demo_world_def)
  from C1_dispatch_order_then_reset [OF live run tab quiet trig] live run tab quiet trig contract empty
  show ?thesis by auto
qed

text \<open>
  Claim C2. In a pass of the running worker in which some registered event triggers,
  one event is serviced: the first entry, in the iteration order of the table, whose
  event triggers. Its callbacks are called and it is reset; no callback is called on any
  other event and no other event is reset, whether it triggers or not.
\<close>

theorem C2_one_event_per_cycle:
  assumes "listener_objs w l = Some L" and "running L"
    and "\<exists>p\<in>set (event2func L). trigger (event_objs w (fst p))"
  shows "\<exists>pre e fs post w'.
           event2func L = pre @ (e, fs) # post
           \<and> (\<forall>p\<in>set pre. \<not> trigger (event_objs w (fst p)))
           \<and> trigger (event_objs w e)
           \<and> listen_cycle l w = Dispatched w'
           \<and> trace w' = trace w @ map (\<lambda>f. Call f e) fs @ [Reset e]
           \<and> event_objs w' e = reset (event_objs w e)
           \<and> (\<forall>k. k \<noteq> e \<longrightarrow> event_objs w' k = event_objs w k)
           \<and> listener_objs w' = listener_objs w"
proof -
  from first_triggered_split [OF assms(3)] obtain pre e fs post where
    tab: "event2func L = pre @ (e, fs) # post"
    and quiet: "\<forall>p\<in>set pre. \<not> trigger (event_objs w (fst p))"
    and trig: "trigger (event_objs w e)"
    by blast
  from listen_cycle_dispatch [OF assms(1,2) tab quiet trig] tab quiet trig
  show ?thesis by auto
qed

theorem C2_one_event_per_cycle_witness:
  "listener_objs demo_world 1 = Some demo_listener \<and> running demo_listener
   \<and> trigger (event_objs demo_world 7) \<and> trigger (event_objs demo_world 8)
   \<and> (\<exists>pre e fs post w'.
         event2func demo_listener = pre @ (e, fs) # post
         \<and> trigger (event_objs demo_world e)
         \<and> listen_cycle 1 demo_world = Dispatched w'
         \<and> trace w' = trace demo_world @ map (\<lambda>f. Call f e) fs @ [Reset e]
         \<and> listener_objs w' = listener_objs demo_world)
   \<and> (\<exists>w'. listen_cycle 1 demo_world = Dispatched w'
         \<and> trace w' = [Call 21 7, Call 22 7, Reset 7]
         \<and> event_objs w' 8 = event_objs demo_world 8)"
proof -
  have live: "listener_objs demo_world 1 = Some demo_listener"
    by (simp add: demo_world_def)
  have run: "running demo_listener"
    by (simp add: demo_listener_def)
  have t7: "trigger (event_objs demo_world 7)" and t8: "trigger (event_objs demo_world 8)"
    by (simp_all add: demo_world_def key_event_def trigger_def)
  from t7 have some: "\<exists>p\<in>set (event2func demo_listener). trigger (event_objs demo_world (fst p))"
    by (simp add: demo_listener_def)
  have run1: "\<exists>w'. listen_cycle 1 demo_world = Dispatched w'
         \<and> trace w' = [Call 21 7, Call 22 7, Reset 7]
         \<and> event_objs w' 8 = event_objs demo_world 8"
    by (simp add: listen_cycle_def demo_world_def demo_listener_def key_event_def trigger_def
          call_reset_def)
  from C2_one_event_per_cycle [OF live run some] live run t7 t8 run1
  show ?thesis by blast
qed

section \<open>The handler\<close>






















lemma listener_type_start:
  "EventHandler_start h w = Inr (h', w') \<Longrightarrow> listener_type h' = listener_type h"
  by (auto simp: EventHandler_start_def split: if_splits sum.splits)

lemma listener_type_stop:
  "EventHandler_stop h w = Inr (h', w') \<Longrightarrow> listener_type h' = listener_type h"
  by (auto simp: EventHandler_stop_def split: if_splits sum.splits)

text \<open>
  Claim C6. \<^verbatim>\<open>add_listener(l)\<close> on a handler that is running does nothing: the handler,
  and so its listener collection and the length of it, is as before, and no fault is
  possible (the function has no failing branch). On a handler that is not running it
  appends \<open>l\<close> to the collection.
\<close>

theorem C6_add_listener_running_noop:
  "(handler_running h \<longrightarrow> EventHandler_add_listener l h = h)
   \<and> (\<not> handler_running h \<longrightarrow>
        EventHandler_add_listener l h = h\<lparr>listeners := listeners h @ [l]\<rparr>)"
  by (simp add: EventHandler_add_listener_def)

theorem C6_add_listener_running_noop_witness:
  "handler_running (demo_handler STATIC_LISTENER)
   \<and> EventHandler_add_listener (Some 3) (demo_handler STATIC_LISTENER) = demo_handler STATIC_LISTENER
   \<and> length (listeners (EventHandler_add_listener (Some 3) (demo_handler STATIC_LISTENER))) = 2
   \<and> \<not> handler_running (EventHandler_ctor STATIC_LISTENER)
   \<and> listeners (EventHandler_add_listener (Some 3) (EventHandler_ctor STATIC_LISTENER)) = [Some 3]"
proof -
  have r: "handler_running (demo_handler STATIC_LISTENER)"
    by (simp add: demo_handler_def)
  have i: "\<not> handler_running (EventHandler_ctor STATIC_LISTENER)"
    by (simp add: EventHandler_ctor_def)
  from C6_add_listener_running_noop [of "demo_handler STATIC_LISTENER" "Some 3"] r
  have 1: "EventHandler_add_listener (Some 3) (demo_handler STATIC_LISTENER) = demo_handler STATIC_LISTENER"
    by simp
  from C6_add_listener_running_noop [of "EventHandler_ctor STATIC_LISTENER" "Some 3"] i
  have 2: "listeners (EventHandler_add_listener (Some 3) (EventHandler_ctor STATIC_LISTENER)) = [Some 3]"
    by (simp add: EventHandler_ctor_def)
  from r i 1 2 show ?thesis by (simp add: demo_handler_def)
qed







section \<open>Events: the notify hook and the instance list\<close>

text \<open>
  Claim C9. The constructor of \<^verbatim>\<open>EventBase\<close> sets the stored pointer to null, and
  \<^verbatim>\<open>internal()\<close> notifies only through a pointer that is not null. So on an event that
  was constructed and never registered, \<^verbatim>\<open>internal()\<close> changes nothing: no fault, no
  notification. Registering other events and dispatch passes of a worker do not change
  that.
\<close>

theorem C9_internal_unregistered_noop:
  "cv (event_objs (EventBase_ctor e w) e) = None
   \<and> internal e (EventBase_ctor e w) = EventBase_ctor e w
   \<and> (\<forall>l e' f w'. e' \<noteq> e \<longrightarrow> register_event l e' f (EventBase_ctor e w) = Inr w' \<longrightarrow>
          internal e w' = w')
   \<and> (\<forall>l w'. listen_cycle l (EventBase_ctor e w) = Dispatched w' \<longrightarrow> internal e w' = w')"
proof -
  let ?w = "EventBase_ctor e w"
  have null: "cv (event_objs ?w e) = None"
    by (simp add: EventBase_ctor_def set_cv_def)
  then have noop: "internal e ?w = ?w"
    by (simp add: internal_def)
  have reg: "internal e w' = w'" if "e' \<noteq> e" "register_event l e' f ?w = Inr w'" for l e' f w'
  proof -
    from that have "cv (event_objs w' e) = cv (event_objs ?w e)"
      by (auto simp: register_event_def split: option.splits)
    with null show ?thesis by (simp add: internal_def)
  qed
  have disp: "internal e w' = w'" if "listen_cycle l ?w = Dispatched w'" for l w'
  proof -
    from that have "cv (event_objs w' e) = cv (event_objs ?w e)"
      by (auto simp: listen_cycle_def call_functions_eq call_reset_def reset_def
            split: option.splits if_splits)
    with null show ?thesis by (simp add: internal_def)
  qed
  from null noop reg disp show ?thesis by blast
qed

theorem C9_internal_unregistered_noop_witness:
  "(8::nat) \<noteq> 7
   \<and> (\<exists>w'. register_event 2 8 30 (EventBase_ctor 7 demo_world) = Inr w' \<and> internal 7 w' = w')
   \<and> (\<exists>w'. listen_cycle 1 (EventBase_ctor 7 demo_world) = Dispatched w' \<and> internal 7 w' = w')
   \<and> trace (internal 7 (EventBase_ctor 7 demo_world)) = []"
proof -
  let ?w = "EventBase_ctor 7 demo_world"
  note inst = C9_internal_unregistered_noop [of 7 demo_world]
  obtain w1 where r: "register_event 2 8 30 ?w = Inr w1"
    by (simp add: register_event_def EventBase_ctor_def demo_world_def)
  obtain w2 where d: "listen_cycle 1 ?w = Dispatched w2"
    by (simp add: listen_cycle_def EventBase_ctor_def demo_world_def demo_listener_def
          key_event_def trigger_def set_cv_def)
  have ne: "(8::nat) \<noteq> 7" by simp
  from inst ne r have 1: "internal 7 w1 = w1" by blast
  from inst d have 2: "internal 7 w2 = w2" by blast
  from inst have 3: "trace (internal 7 ?w) = []"
    by (simp add: EventBase_ctor_def demo_world_def)
  from r d 1 2 3 show ?thesis by auto
qed

text \<open>
  The instance list of an event class whose objects are all made by \<^verbatim>\<open>Event(void)\<close>:
  the constructor appends the new object, the list holds the live objects and each
  once, and the destructor of a live object succeeds and removes that object alone,
  keeping the order of the others.
\<close>

lemma get_instances_Event_ctor:
  "get_instances (Event_ctor this c) = get_instances c @ [this]"
  by (simp add: get_instances_def Event_ctor_def Let_def)

lemma registry_inv_init: "registry_inv Event_class_init"
  by (simp add: registry_inv_def Event_class_init_def)

lemma registry_inv_ctor:
  assumes inv: "registry_inv c" and fresh: "instance_iter c this = None"
  shows "registry_inv (Event_ctor this c)"
proof -
  from inv have d: "distinct (map fst (instances c))"
    and m: "\<And>n a. (n, a) \<in> set (instances c) \<longleftrightarrow> instance_iter c a = Some n"
    and b: "\<And>p. p \<in> set (instances c) \<Longrightarrow> fst p < node_count c"
    by (auto simp: registry_inv_def)
  have "node_count c \<notin> fst ` set (instances c)"
  proof
    assume "node_count c \<in> fst ` set (instances c)"
    then obtain p where "p \<in> set (instances c)" "fst p = node_count c" by auto
    with b [of p] show False by simp
  qed
  with d have "distinct (map fst (instances (Event_ctor this c)))"
    by (simp add: Event_ctor_def Let_def)
  moreover have "\<forall>n a. (n, a) \<in> set (instances (Event_ctor this c))
                   \<longleftrightarrow> instance_iter (Event_ctor this c) a = Some n"
    using m fresh by (auto simp: Event_ctor_def Let_def)
  moreover have "\<forall>p\<in>set (instances (Event_ctor this c)). fst p < node_count (Event_ctor this c)"
    using b by (auto simp: Event_ctor_def Let_def less_Suc_eq)
  ultimately show ?thesis by (simp add: registry_inv_def)
qed

lemma Event_dtor_live:
  assumes inv: "registry_inv c" and live: "instance_iter c this = Some it"
  shows "Event_dtor this c =
           Inr (c\<lparr>instances := filter (\<lambda>p. fst p \<noteq> it) (instances c),
                  instance_iter := (instance_iter c)(this := None)\<rparr>)"
proof -
  from inv live have "(it, this) \<in> set (instances c)" by (simp add: registry_inv_def)
  then have "it \<in> set (map fst (instances c))" by force
  with live show ?thesis by (simp add: Event_dtor_def)
qed

lemma registry_inv_dtor:
  assumes inv: "registry_inv c" and dt: "Event_dtor this c = Inr c'"
  shows "registry_inv c'"
proof -
  from inv have d: "distinct (map fst (instances c))"
    and m: "\<And>n a. (n, a) \<in> set (instances c) \<longleftrightarrow> instance_iter c a = Some n"
    and b: "\<And>p. p \<in> set (instances c) \<Longrightarrow> fst p < node_count c"
    by (auto simp: registry_inv_def)
  from dt obtain it where live: "instance_iter c this = Some it"
    and c': "c' = c\<lparr>instances := filter (\<lambda>p. fst p \<noteq> it) (instances c),
                     instance_iter := (instance_iter c)(this := None)\<rparr>"
    by (auto simp: Event_dtor_def split: option.splits if_splits)
  have ins: "instances c' = filter (\<lambda>p. fst p \<noteq> it) (instances c)"
    and itr: "instance_iter c' = (instance_iter c)(this := None)"
    and cnt: "node_count c' = node_count c"
    using c' by simp_all
  have only: "a = this" if "instance_iter c a = Some it" for a
  proof -
    from that m have 1: "(it, a) \<in> set (instances c)" by simp
    from live m have 2: "(it, this) \<in> set (instances c)" by simp
    from d 1 2 show ?thesis by (rule eq_key_imp_eq_value)
  qed
  have "distinct (map fst (instances c'))"
    using d by (simp add: ins distinct_map_filter)
  moreover have "(n, a) \<in> set (instances c') \<longleftrightarrow> instance_iter c' a = Some n" for n a
  proof (cases "a = this")
    case True
    with live m [of n a] show ?thesis by (auto simp: ins itr)
  next
    case False
    with only [of a] m [of n a] show ?thesis by (auto simp: ins itr)
  qed
  moreover have "\<forall>p\<in>set (instances c'). fst p < node_count c'"
    using b by (simp add: ins cnt)
  ultimately show ?thesis by (simp add: registry_inv_def)
qed

lemma default_made_inv: "default_made c \<Longrightarrow> registry_inv c"
  by (induction rule: default_made.induct)
     (auto intro: registry_inv_init registry_inv_ctor registry_inv_dtor)

lemma registry_mirrors_lifetime:
  assumes "default_made c"
  shows "set (get_instances c) = dom (instance_iter c) \<and> distinct (get_instances c)"
proof -
  from default_made_inv [OF assms] have d: "distinct (map fst (instances c))"
    and m: "\<And>n a. (n, a) \<in> set (instances c) \<longleftrightarrow> instance_iter c a = Some n"
    by (auto simp: registry_inv_def)
  have "set (get_instances c) = dom (instance_iter c)"
    using m by (force simp: get_instances_def dom_def)
  moreover have "distinct (get_instances c)"
    unfolding get_instances_def
  proof (rule distinct_map [THEN iffD2], intro conjI)
    show "distinct (instances c)" using d by (simp add: distinct_map)
    show "inj_on snd (set (instances c))"
    proof (rule inj_onI)
      fix p q assume p: "p \<in> set (instances c)" and q: "q \<in> set (instances c)"
        and eq: "snd p = snd q"
      from p have "(fst p, snd p) \<in> set (instances c)" by simp
      then have 1: "instance_iter c (snd p) = Some (fst p)" by (simp only: m)
      from q have "(fst q, snd q) \<in> set (instances c)" by simp
      then have 2: "instance_iter c (snd q) = Some (fst q)" by (simp only: m)
      from 1 2 eq show "p = q" by (simp add: prod_eq_iff)
    qed
  qed
  ultimately show ?thesis ..
qed

lemma destructor_removes_own_entry:
  assumes made: "default_made c" and live: "instance_iter c this \<noteq> None"
  shows "\<exists>c'. Event_dtor this c = Inr c'
           \<and> get_instances c' = filter (\<lambda>a. a \<noteq> this) (get_instances c)
           \<and> dom (instance_iter c') = dom (instance_iter c) - {this}"
proof -
  from default_made_inv [OF made] have inv: "registry_inv c" .
  then have d: "distinct (map fst (instances c))"
    and m: "\<And>n a. (n, a) \<in> set (instances c) \<longleftrightarrow> instance_iter c a = Some n"
    by (auto simp: registry_inv_def)
  from live obtain it where it: "instance_iter c this = Some it" by auto
  have "filter (\<lambda>p. fst p \<noteq> it) (instances c) = filter (\<lambda>p. snd p \<noteq> this) (instances c)"
  proof (rule filter_cong [OF refl])
    fix p assume p: "p \<in> set (instances c)"
    then have "(fst p, snd p) \<in> set (instances c)" by simp
    then have ip: "instance_iter c (snd p) = Some (fst p)" by (simp only: m)
    show "(fst p \<noteq> it) = (snd p \<noteq> this)"
    proof
      assume "fst p \<noteq> it" with ip it show "snd p \<noteq> this" by auto
    next
      assume ne: "snd p \<noteq> this"
      show "fst p \<noteq> it"
      proof
        assume "fst p = it"
        then have "p = (it, snd p)" by (simp add: prod_eq_iff)
        with p have 1: "(it, snd p) \<in> set (instances c)" by simp
        from it m have 2: "(it, this) \<in> set (instances c)" by simp
        from d 1 2 have "snd p = this" by (rule eq_key_imp_eq_value)
        with ne show False by simp
      qed
    qed
  qed
  then have "map snd (filter (\<lambda>p. fst p \<noteq> it) (instances c)) = filter (\<lambda>a. a \<noteq> this) (map snd (instances c))"
    by (simp add: filter_map comp_def)
  with Event_dtor_live [OF inv it] show ?thesis
    by (auto simp: get_instances_def)
qed

text \<open>
  Claim C8. For every event class the instance list mirrors the lifetime of the
  instances: an instance is in the list from the end of its constructor to the start of
  its destructor, no entry is missing for a live instance and none is left for a
  destroyed one. The lemmas above show this for instances made by \<^verbatim>\<open>Event(void)\<close>. It
  fails for an instance made by the copy constructor. With the object 1 default
  constructed and the object 2 copied from it, both are alive and the list holds only 1:
  the entry of 2 is missing. The destructor of 2 then erases the node of 1, so 1 is alive
  with no entry, and the destructor of 1 erases through an iterator whose node is
  gone.
\<close>

theorem C8_copy_breaks_the_registry:
  "\<exists>c1 c2. Event_copy_ctor 2 1 (Event_ctor 1 Event_class_init) = Inr c1
      \<and> dom (instance_iter c1) = {1, 2} \<and> get_instances c1 = [1]
      \<and> Event_dtor 2 c1 = Inr c2
      \<and> dom (instance_iter c2) = {1} \<and> get_instances c2 = []
      \<and> Event_dtor 1 c2 = Inl InvalidIterator"
  by (auto simp: Event_copy_ctor_def Event_ctor_def Event_class_init_def Event_dtor_def
        get_instances_def Let_def)

end
